theory Spec2Isabelle
  imports Complex_Main "HOL-Library.Multiset" "HOL-Library.AList" "HOL-Library.Product_Lexorder"
begin

section \<open>Values, errors and the random source\<close>

text \<open>
  The functions of \<^verbatim>\<open>dice.py\<close> branch on the dynamic type of their argument and of each
  element of the die-list. An element is a Python int (a die with faces 1..n), a list of
  ints (a die with the listed faces) or, standing for every value that is neither an int
  nor a list, a string. The argument itself is an int, a list of elements or a string.
\<close>

datatype elem = IntE int | ListE "int list" | StrE string

datatype pyarg = IntA int | ListA "elem list" | StrA string

datatype error = AssertionError string | TypeError | KeyError | IndexError | ZeroDivisionError

text \<open>
  The two error kinds of the specification are the two families of failed assertions of the
  source: the shape assertion at the head of each function, and the assertion on the
  number of sides.
\<close>

definition InvalidArgumentError :: "string \<Rightarrow> error" where
  "InvalidArgumentError fn = AssertionError (''Invalid argument to '' @ fn @ ''!'')"

definition InvalidDieError :: error where
  "InvalidDieError = AssertionError ''Negative number supplied as number of sides of die!''"

text \<open>
  A Python dict keeps its keys distinct and in insertion order: an association list,
  read with \<open>map_of\<close> and written with \<open>AList.update\<close> (which overwrites in place or
  appends at the end). Two dicts are equal in Python when they are equal as mappings,
  that is when their \<open>map_of\<close> agree.
\<close>

type_synonym dict = "(int \<times> int) list"

definition getitem :: "dict \<Rightarrow> int \<Rightarrow> error + int" where
  "getitem d k = (case map_of d k of None \<Rightarrow> Inl KeyError | Some v \<Rightarrow> Inr v)"

definition get_default :: "dict \<Rightarrow> int \<Rightarrow> int \<Rightarrow> int" where
  "get_default d k dflt = (case map_of d k of None \<Rightarrow> dflt | Some v \<Rightarrow> v)"

text \<open>
  The module-level generator of \<^verbatim>\<open>random\<close> is a tape of the raw draws still to come.
  \<open>randbelow n\<close> takes the next draw into \<open>{0..<n}\<close>; \<open>shuffle\<close> is the
  standard library's loop \<^verbatim>\<open>for i in reversed(range(1, len(x))): j = randbelow(i + 1);
  x[i], x[j] = x[j], x[i]\<close>, and \<^verbatim>\<open>random.choice(seq)\<close> is \<^verbatim>\<open>seq[randbelow(len(seq))]\<close>,
  raising IndexError on an empty sequence.
\<close>

type_synonym rng = "nat list"

fun randbelow :: "nat \<Rightarrow> rng \<Rightarrow> nat \<times> rng" where
  "randbelow n [] = (0, [])"
| "randbelow n (x # r) = (x mod n, r)"

fun shuffle_loop :: "nat \<Rightarrow> 'a list \<Rightarrow> rng \<Rightarrow> 'a list \<times> rng" where
  "shuffle_loop 0 xs r = (xs, r)"
| "shuffle_loop (Suc i) xs r =
     (case randbelow (Suc (Suc i)) r of
        (j, r') \<Rightarrow> shuffle_loop i (xs[Suc i := xs ! j, j := xs ! Suc i]) r')"

definition shuffle :: "'a list \<Rightarrow> rng \<Rightarrow> 'a list \<times> rng" where
  "shuffle xs r = shuffle_loop (length xs - 1) xs r"

section \<open>The pairwise merge\<close>

text \<open>
  \<^verbatim>\<open>_mergeDiceDicts\<close> is the same in \<^verbatim>\<open>src/dice.py\<close> and \<^verbatim>\<open>src/dice/dice.py\<close>. Both
  arguments are dicts here, so its assertion cannot fail; \<^verbatim>\<open>d1[k1]\<close> raises KeyError on
  a missing key.
\<close>

fun merge_k2_loop :: "dict \<Rightarrow> dict \<Rightarrow> int \<Rightarrow> int list \<Rightarrow> dict \<Rightarrow> error + dict" where
  "merge_k2_loop d1 d2 k1 [] newDict = Inr newDict"
| "merge_k2_loop d1 d2 k1 (k2 # ks) newDict =
     (let newK = k1 + k2 in
      case getitem d1 k1 of
        Inl e \<Rightarrow> Inl e
      | Inr v1 \<Rightarrow>
         (case getitem d2 k2 of
            Inl e \<Rightarrow> Inl e
          | Inr v2 \<Rightarrow>
             (let newV = v1 * v2 in
              merge_k2_loop d1 d2 k1 ks
                (AList.update newK (get_default newDict newK 0 + newV) newDict))))"

fun merge_k1_loop :: "dict \<Rightarrow> dict \<Rightarrow> int list \<Rightarrow> dict \<Rightarrow> error + dict" where
  "merge_k1_loop d1 d2 [] newDict = Inr newDict"
| "merge_k1_loop d1 d2 (k1 # ks) newDict =
     (case merge_k2_loop d1 d2 k1 (map fst d2) newDict of
        Inl e \<Rightarrow> Inl e
      | Inr newDict' \<Rightarrow> merge_k1_loop d1 d2 ks newDict')"

definition mergeDiceDicts :: "dict \<Rightarrow> dict \<Rightarrow> error + dict" where
  "mergeDiceDicts d1 d2 =
     (if length d1 = 0 then Inr d2
      else if length d2 = 0 then Inr d1
      else merge_k1_loop d1 d2 (map fst d1) [])"

section \<open>The distribution builder\<close>

text \<open>
  \<^verbatim>\<open>diceDict\<close> of \<^verbatim>\<open>src/dice.py\<close>. The result is what the call returns or raises, the
  content of the caller's argument object after the call (\<^verbatim>\<open>random.shuffle\<close> works in
  place; the slices handed to the recursive calls are fresh lists), and the generator
  afterwards. A Python set iterates in an order the language leaves open; the model
  visits the distinct faces in the order \<open>remdups\<close> lists them.
\<close>

function diceDict :: "rng \<Rightarrow> pyarg \<Rightarrow> (error + dict) \<times> pyarg \<times> rng" where
  "diceDict r (IntA n) = (Inl (InvalidArgumentError ''diceDict''), IntA n, r)"
| "diceDict r (StrA s) = (Inl (InvalidArgumentError ''diceDict''), StrA s, r)"
| "diceDict r (ListA []) = (Inr [], ListA [], r)"
| "diceDict r (ListA [ListE vs]) =
     (Inr (fold (\<lambda>x newDict. AList.update x (int (count_list vs x)) newDict) (remdups vs) []),
      ListA [ListE vs], r)"
| "diceDict r (ListA [IntE n]) =
     (if n > 0 then Inr (map (\<lambda>x. (x, 1)) [1..n]) else Inl InvalidDieError,
      ListA [IntE n], r)"
| "diceDict r (ListA [StrE s]) = (Inl TypeError, ListA [StrE s], r)"
| "diceDict r (ListA (x # y # zs)) =
     (case shuffle (x # y # zs) r of
        (ys, r1) \<Rightarrow>
          (let L = length ys div 2 in
           case diceDict r1 (ListA (take L ys)) of
             (Inl e, _, r2) \<Rightarrow> (Inl e, ListA ys, r2)
           | (Inr leftDict, _, r2) \<Rightarrow>
              (case diceDict r2 (ListA (drop L ys)) of
                 (Inl e, _, r3) \<Rightarrow> (Inl e, ListA ys, r3)
               | (Inr rightDict, _, r3) \<Rightarrow>
                  (case mergeDiceDicts leftDict rightDict of
                     Inl e \<Rightarrow> (Inl e, ListA ys, r3)
                   | Inr final \<Rightarrow> (Inr (sort final), ListA ys, r3)))))"
  by pat_completeness auto

lemma length_shuffle_loop: "length (fst (shuffle_loop i xs r)) = length xs"
  by (induction i xs r rule: shuffle_loop.induct) (auto split: prod.splits)

lemma length_shuffle: "length (fst (shuffle xs r)) = length xs"
  by (simp add: shuffle_def length_shuffle_loop)

lemma shuffle_length: "(ys, r') = shuffle xs r \<Longrightarrow> length ys = length xs"
  using length_shuffle[of xs r] by (cases "shuffle xs r") simp

termination diceDict
  by (relation "measure (\<lambda>(r, a). case a of ListA ds \<Rightarrow> length ds | _ \<Rightarrow> 0)")
     (auto dest!: shuffle_length)

text \<open>
  \<^verbatim>\<open>diceDict\<close> of the older \<^verbatim>\<open>src/dice/dice.py\<close>: the same function, except that it
  returns the merged dict as it is, without sorting its items.
\<close>

function diceDict_old :: "rng \<Rightarrow> pyarg \<Rightarrow> (error + dict) \<times> pyarg \<times> rng" where
  "diceDict_old r (IntA n) = (Inl (InvalidArgumentError ''diceDict''), IntA n, r)"
| "diceDict_old r (StrA s) = (Inl (InvalidArgumentError ''diceDict''), StrA s, r)"
| "diceDict_old r (ListA []) = (Inr [], ListA [], r)"
| "diceDict_old r (ListA [ListE vs]) =
     (Inr (fold (\<lambda>x newDict. AList.update x (int (count_list vs x)) newDict) (remdups vs) []),
      ListA [ListE vs], r)"
| "diceDict_old r (ListA [IntE n]) =
     (if n > 0 then Inr (map (\<lambda>x. (x, 1)) [1..n]) else Inl InvalidDieError,
      ListA [IntE n], r)"
| "diceDict_old r (ListA [StrE s]) = (Inl TypeError, ListA [StrE s], r)"
| "diceDict_old r (ListA (x # y # zs)) =
     (case shuffle (x # y # zs) r of
        (ys, r1) \<Rightarrow>
          (let L = length ys div 2 in
           case diceDict_old r1 (ListA (take L ys)) of
             (Inl e, _, r2) \<Rightarrow> (Inl e, ListA ys, r2)
           | (Inr leftDict, _, r2) \<Rightarrow>
              (case diceDict_old r2 (ListA (drop L ys)) of
                 (Inl e, _, r3) \<Rightarrow> (Inl e, ListA ys, r3)
               | (Inr rightDict, _, r3) \<Rightarrow>
                  (case mergeDiceDicts leftDict rightDict of
                     Inl e \<Rightarrow> (Inl e, ListA ys, r3)
                   | Inr final \<Rightarrow> (Inr final, ListA ys, r3)))))"
  by pat_completeness auto

termination diceDict_old
  by (relation "measure (\<lambda>(r, a). case a of ListA ds \<Rightarrow> length ds | _ \<Rightarrow> 0)")
     (auto dest!: shuffle_length)

text \<open>
  The specification asks that the result not depend on where the list is split. The
  source always splits at \<open>length div 2\<close>; \<open>diceDict_split\<close> is \<^verbatim>\<open>diceDict\<close> with the
  split point chosen by a strategy \<open>sp\<close> from the length of the list (kept between 1 and
  length - 1, so that both halves are shorter than the list). It follows the
  specification's words, for comparison with \<open>diceDict\<close>.
\<close>

definition split_point :: "(nat \<Rightarrow> nat) \<Rightarrow> nat \<Rightarrow> nat" where
  "split_point sp n = max 1 (min (n - 1) (sp n))"

function diceDict_split :: "(nat \<Rightarrow> nat) \<Rightarrow> rng \<Rightarrow> pyarg \<Rightarrow> (error + dict) \<times> pyarg \<times> rng" where
  "diceDict_split sp r (IntA n) = (Inl (InvalidArgumentError ''diceDict''), IntA n, r)"
| "diceDict_split sp r (StrA s) = (Inl (InvalidArgumentError ''diceDict''), StrA s, r)"
| "diceDict_split sp r (ListA []) = (Inr [], ListA [], r)"
| "diceDict_split sp r (ListA [ListE vs]) =
     (Inr (fold (\<lambda>x newDict. AList.update x (int (count_list vs x)) newDict) (remdups vs) []),
      ListA [ListE vs], r)"
| "diceDict_split sp r (ListA [IntE n]) =
     (if n > 0 then Inr (map (\<lambda>x. (x, 1)) [1..n]) else Inl InvalidDieError,
      ListA [IntE n], r)"
| "diceDict_split sp r (ListA [StrE s]) = (Inl TypeError, ListA [StrE s], r)"
| "diceDict_split sp r (ListA (x # y # zs)) =
     (case shuffle (x # y # zs) r of
        (ys, r1) \<Rightarrow>
          (let L = split_point sp (length ys) in
           case diceDict_split sp r1 (ListA (take L ys)) of
             (Inl e, _, r2) \<Rightarrow> (Inl e, ListA ys, r2)
           | (Inr leftDict, _, r2) \<Rightarrow>
              (case diceDict_split sp r2 (ListA (drop L ys)) of
                 (Inl e, _, r3) \<Rightarrow> (Inl e, ListA ys, r3)
               | (Inr rightDict, _, r3) \<Rightarrow>
                  (case mergeDiceDicts leftDict rightDict of
                     Inl e \<Rightarrow> (Inl e, ListA ys, r3)
                   | Inr final \<Rightarrow> (Inr (sort final), ListA ys, r3)))))"
  by pat_completeness auto

termination diceDict_split
  by (relation "measure (\<lambda>(sp, r, a). case a of ListA ds \<Rightarrow> length ds | _ \<Rightarrow> 0)")
     (auto dest!: shuffle_length simp: split_point_def)

section \<open>Probabilities\<close>

text \<open>
  A probability is a \<^verbatim>\<open>Fraction\<close> (an exact rational) or a float. The quotient of two
  ints as a float, \<^verbatim>\<open>a / b\<close> for \<open>b \<noteq> 0\<close>, is the parameter \<open>fdiv\<close>: the development
  uses nothing about it but that it is a function of the two ints. Both
  \<^verbatim>\<open>Fraction(a, 0)\<close> and \<^verbatim>\<open>a / 0\<close> raise ZeroDivisionError.
\<close>

datatype 'f pynum = PFraction rat | PFloat 'f

definition Fraction :: "int \<Rightarrow> int \<Rightarrow> error + 'f pynum" where
  "Fraction a b = (if b = 0 then Inl ZeroDivisionError else Inr (PFraction (Fract a b)))"

definition truediv :: "(int \<Rightarrow> int \<Rightarrow> 'f) \<Rightarrow> int \<Rightarrow> int \<Rightarrow> error + 'f pynum" where
  "truediv fdiv a b = (if b = 0 then Inl ZeroDivisionError else Inr (PFloat (fdiv a b)))"

text \<open>The dict comprehension \<^verbatim>\<open>{ x : f(x) for x in keys }\<close>, stopping at the first error.\<close>

fun dict_comp :: "(int \<Rightarrow> error + 'v) \<Rightarrow> int list \<Rightarrow> (int \<times> 'v) list \<Rightarrow> error + (int \<times> 'v) list" where
  "dict_comp f [] acc = Inr acc"
| "dict_comp f (x # xs) acc =
     (case f x of Inl e \<Rightarrow> Inl e | Inr v \<Rightarrow> dict_comp f xs (AList.update x v acc))"

text \<open>\<^verbatim>\<open>diceProb\<close> of \<^verbatim>\<open>src/dice.py\<close>, with its \<^verbatim>\<open>exact\<close> flag.\<close>

definition diceProb :: "(int \<Rightarrow> int \<Rightarrow> 'f) \<Rightarrow> rng \<Rightarrow> pyarg \<Rightarrow> bool \<Rightarrow> error + (int \<times> 'f pynum) list" where
  "diceProb fdiv r diceList exact =
     (case diceList of
        StrA s \<Rightarrow> Inl (InvalidArgumentError ''diceProb'')
      | _ \<Rightarrow>
         (let diceList' = (case diceList of IntA n \<Rightarrow> ListA [IntE n] | _ \<Rightarrow> diceList) in
          case fst (diceDict r diceList') of
            Inl e \<Rightarrow> Inl e
          | Inr result \<Rightarrow>
             (let s = sum_list (map snd result) in
              if exact
              then dict_comp (\<lambda>x. case getitem result x of Inl e \<Rightarrow> Inl e | Inr c \<Rightarrow> Fraction c s)
                     (sort (map fst result)) []
              else dict_comp (\<lambda>x. case getitem result x of Inl e \<Rightarrow> Inl e | Inr c \<Rightarrow> truediv fdiv c s)
                     (sort (map fst result)) [])))"

text \<open>
  \<^verbatim>\<open>diceProb\<close> of the older \<^verbatim>\<open>src/dice/dice.py\<close>: floats only, built on the older
  \<^verbatim>\<open>diceDict\<close>, the keys taken in the order of the dict.
\<close>

definition diceProb_old :: "(int \<Rightarrow> int \<Rightarrow> 'f) \<Rightarrow> rng \<Rightarrow> pyarg \<Rightarrow> error + (int \<times> 'f pynum) list" where
  "diceProb_old fdiv r diceList =
     (case diceList of
        StrA s \<Rightarrow> Inl (InvalidArgumentError ''diceProb'')
      | _ \<Rightarrow>
         (let diceList' = (case diceList of IntA n \<Rightarrow> ListA [IntE n] | _ \<Rightarrow> diceList) in
          case fst (diceDict_old r diceList') of
            Inl e \<Rightarrow> Inl e
          | Inr result \<Rightarrow>
             (let s = sum_list (map snd result) in
              dict_comp (\<lambda>x. case getitem result x of Inl e \<Rightarrow> Inl e | Inr c \<Rightarrow> truediv fdiv c s)
                (map fst result) [])))"

section \<open>Rolling the dice\<close>

text \<open>
  \<^verbatim>\<open>roll\<close> is the same in both files. An element that is neither an int nor a list takes
  neither branch of the loop body and leaves \<^verbatim>\<open>result\<close> as it is.
\<close>

fun roll_loop :: "rng \<Rightarrow> elem list \<Rightarrow> int \<Rightarrow> error + int" where
  "roll_loop r [] result = Inr result"
| "roll_loop r (IntE n # ds) result =
     (if n > 0
      then (case randbelow (nat n) r of (j, r') \<Rightarrow> roll_loop r' ds (result + (1 + int j)))
      else Inl InvalidDieError)"
| "roll_loop r (ListE vs # ds) result =
     (if vs = [] then Inl IndexError
      else (case randbelow (length vs) r of (j, r') \<Rightarrow> roll_loop r' ds (result + vs ! j)))"
| "roll_loop r (StrE s # ds) result = roll_loop r ds result"

definition roll :: "rng \<Rightarrow> pyarg \<Rightarrow> error + int" where
  "roll r diceList =
     (case diceList of
        StrA s \<Rightarrow> Inl (InvalidArgumentError ''roll'')
      | IntA n \<Rightarrow> roll_loop r [IntE n] 0
      | ListA ds \<Rightarrow> roll_loop r ds 0)"

section \<open>Outcomes as multisets\<close>

text \<open>
  A dict of counts stands for the multiset of outcomes in which every key occurs as often
  as its count says. A die stands for the multiset of its faces, and merging two dicts
  adds every outcome of one to every outcome of the other.
\<close>

definition outcomes :: "dict \<Rightarrow> int multiset" where
  "outcomes d = (\<Sum>p\<leftarrow>d. replicate_mset (nat (snd p)) (fst p))"

definition conv :: "int multiset \<Rightarrow> int multiset \<Rightarrow> int multiset" where
  "conv M N = (\<Sum>a\<in>#M. image_mset ((+) a) N)"

definition qconv :: "int multiset \<Rightarrow> int multiset \<Rightarrow> int multiset" where
  "qconv M N = (if M = {#} then N else if N = {#} then M else conv M N)"

fun faces :: "elem \<Rightarrow> int list" where
  "faces (IntE n) = [1..n]"
| "faces (ListE vs) = vs"
| "faces (StrE s) = []"

fun valid_die :: "elem \<Rightarrow> bool" where
  "valid_die (IntE n) = (n > 0)"
| "valid_die (ListE vs) = True"
| "valid_die (StrE s) = False"

definition all_outcomes :: "elem list \<Rightarrow> int multiset" where
  "all_outcomes ds = foldr (\<lambda>d M. qconv (mset (faces d)) M) ds {#}"

definition wf_dict :: "dict \<Rightarrow> bool" where
  "wf_dict d = (distinct (map fst d) \<and> list_all (\<lambda>p. 0 < snd p) d)"

text \<open>
  The entries the two nested loops of the merge add to the new dict, in the order of the
  loops; adding one entry is \<^verbatim>\<open>newDict[newK] = newDict.get(newK, 0) + newV\<close>. The
  products \<^verbatim>\<open>A[a] * B[b]\<close> of the key pairs with \<^verbatim>\<open>a + b == s\<close> are read off the items
  \<open>(a, A[a])\<close> and \<open>(b, B[b])\<close> of the two dicts.
\<close>

definition accumulate :: "int \<times> int \<Rightarrow> dict \<Rightarrow> dict" where
  "accumulate e nd = AList.update (fst e) (get_default nd (fst e) 0 + snd e) nd"

definition pair_entries :: "dict \<Rightarrow> dict \<Rightarrow> dict" where
  "pair_entries d1 d2 = concat (map (\<lambda>p. map (\<lambda>q. (fst p + fst q, snd p * snd q)) d2) d1)"

definition pair_products :: "dict \<Rightarrow> dict \<Rightarrow> int \<Rightarrow> int list" where
  "pair_products A B s = [snd p * snd q. p \<leftarrow> A, q \<leftarrow> B, fst p + fst q = s]"

text \<open>
  What a run of the builder on the dice \<open>ds\<close> has to deliver: on valid dice a well-formed
  dict standing for the outcomes of \<open>ds\<close>, on a list with an invalid die an error.
  \<open>combine\<close> is the part of the recursive case that follows the two recursive calls.
\<close>

definition builds :: "elem list \<Rightarrow> error + dict \<Rightarrow> bool" where
  "builds ds res =
     (if list_all valid_die ds
      then (\<exists>d. res = Inr d \<and> wf_dict d \<and> outcomes d = all_outcomes ds)
      else (\<exists>e. res = Inl e))"

definition combine :: "(dict \<Rightarrow> dict) \<Rightarrow> error + dict \<Rightarrow> error + dict \<Rightarrow> error + dict" where
  "combine post resL resR =
     (case resL of
        Inl e \<Rightarrow> Inl e
      | Inr leftDict \<Rightarrow>
         (case resR of
            Inl e \<Rightarrow> Inl e
          | Inr rightDict \<Rightarrow>
             (case mergeDiceDicts leftDict rightDict of
                Inl e \<Rightarrow> Inl e
              | Inr final \<Rightarrow> Inr (post final))))"

text \<open>
  The number of faces a die contributes to the product of the specification: \<open>n\<close> for a
  die of \<open>n\<close> sides, the length of the list for a die given by its faces.
\<close>

fun face_count :: "elem \<Rightarrow> int" where
  "face_count (IntE n) = n"
| "face_count (ListE vs) = int (length vs)"
| "face_count (StrE s) = 0"

section \<open>The merge is a convolution\<close>

lemma getitem_entry: "distinct (map fst d) \<Longrightarrow> p \<in> set d \<Longrightarrow> getitem d (fst p) = Inr (snd p)"
  by (cases p) (simp add: getitem_def)

lemma merge_k2_loop_fold:
  assumes "getitem d1 k1 = Inr v1" "distinct (map fst d2)" "set qs \<subseteq> set d2"
  shows "merge_k2_loop d1 d2 k1 (map fst qs) nd =
         Inr (fold accumulate (map (\<lambda>q. (k1 + fst q, v1 * snd q)) qs) nd)"
  using assms(3)
proof (induction qs arbitrary: nd)
  case Nil
  then show ?case by simp
next
  case (Cons q qs)
  have "getitem d2 (fst q) = Inr (snd q)"
    using Cons.prems assms(2) by (simp add: getitem_entry)
  with Cons assms(1) show ?case by (simp add: accumulate_def Let_def)
qed

lemma merge_k1_loop_fold:
  assumes "distinct (map fst d1)" "distinct (map fst d2)" "set ps \<subseteq> set d1"
  shows "merge_k1_loop d1 d2 (map fst ps) nd = Inr (fold accumulate (pair_entries ps d2) nd)"
  using assms(3)
proof (induction ps arbitrary: nd)
  case Nil
  then show ?case by (simp add: pair_entries_def)
next
  case (Cons p ps)
  have g: "getitem d1 (fst p) = Inr (snd p)"
    using Cons.prems assms(1) by (simp add: getitem_entry)
  have "merge_k2_loop d1 d2 (fst p) (map fst d2) nd =
        Inr (fold accumulate (map (\<lambda>q. (fst p + fst q, snd p * snd q)) d2) nd)"
    by (rule merge_k2_loop_fold[OF g assms(2)]) simp
  with Cons show ?case by (simp add: pair_entries_def)
qed

lemma mergeDiceDicts_fold:
  assumes "distinct (map fst d1)" "distinct (map fst d2)" "d1 \<noteq> []" "d2 \<noteq> []"
  shows "mergeDiceDicts d1 d2 = Inr (fold accumulate (pair_entries d1 d2) [])"
  using assms merge_k1_loop_fold[OF assms(1,2), of d1 "[]"] by (simp add: mergeDiceDicts_def)

lemma map_of_accumulate:
  "map_of (accumulate e nd) s = (if s = fst e then Some (get_default nd s 0 + snd e) else map_of nd s)"
  by (simp add: accumulate_def update_conv')

lemma get_default_accumulate:
  "get_default (accumulate e nd) s 0 = get_default nd s 0 + (if s = fst e then snd e else 0)"
  by (simp add: get_default_def map_of_accumulate)

lemma keys_accumulate: "fst ` set (accumulate e nd) = insert (fst e) (fst ` set nd)"
  by (simp add: accumulate_def dom_update)

lemma distinct_accumulate: "distinct (map fst nd) \<Longrightarrow> distinct (map fst (accumulate e nd))"
  by (simp add: accumulate_def distinct_update)

lemma distinct_fold_accumulate:
  "distinct (map fst nd) \<Longrightarrow> distinct (map fst (fold accumulate es nd))"
  by (induction es arbitrary: nd) (simp_all add: distinct_accumulate)

lemma keys_fold_accumulate:
  "fst ` set (fold accumulate es nd) = fst ` set es \<union> fst ` set nd"
  by (induction es arbitrary: nd) (auto simp: keys_accumulate)

lemma get_default_fold_accumulate:
  "get_default (fold accumulate es nd) s 0 =
   get_default nd s 0 + sum_list (map snd (filter (\<lambda>e. fst e = s) es))"
  by (induction es arbitrary: nd) (simp_all add: get_default_accumulate)

lemma get_default_Nil: "get_default [] s dflt = dflt"
  by (simp add: get_default_def)

lemma map_of_keys: "map_of d s = (if s \<in> fst ` set d then Some (get_default d s 0) else None)"
  by (cases "map_of d s")
     (auto simp: get_default_def map_of_eq_None_iff dest: map_of_SomeD intro: rev_image_eqI)

lemma pair_products_inner:
  "map snd (filter (\<lambda>e. fst e = s) (map (\<lambda>q. (fst p + fst q, snd p * snd q)) B)) =
   [snd p * snd q. q \<leftarrow> B, fst p + fst q = s]"
  by (induction B) simp_all

lemma pair_products_entries:
  "map snd (filter (\<lambda>e. fst e = s) (pair_entries A B)) = pair_products A B s"
  by (induction A) (simp_all add: pair_entries_def pair_products_def pair_products_inner)

lemma pair_products_Nil_iff:
  "pair_products A B s = [] \<longleftrightarrow> s \<notin> fst ` set (pair_entries A B)"
proof -
  have "pair_products A B s = [] \<longleftrightarrow> filter (\<lambda>e. fst e = s) (pair_entries A B) = []"
    by (simp add: pair_products_entries[symmetric])
  also have "\<dots> \<longleftrightarrow> s \<notin> fst ` set (pair_entries A B)"
    by (auto simp: filter_empty_conv)
  finally show ?thesis .
qed

text \<open>
  C1. For dicts \<open>A\<close> and \<open>B\<close> (keys distinct, as in every Python dict) that are both
  non-empty, \<^verbatim>\<open>_mergeDiceDicts\<close> returns a dict \<open>C\<close> in which every \<open>s\<close> is mapped to
  the sum of the products \<open>A[a] * B[b]\<close> over the key pairs with \<open>a + b = s\<close>, and \<open>s\<close> is a
  key of \<open>C\<close> exactly when there is such a pair. If either dict is empty, the other one is
  returned unchanged.
\<close>

theorem mergeDiceDicts_convolution:
  assumes "distinct (map fst A)" and "distinct (map fst B)"
  shows "(A \<noteq> [] \<and> B \<noteq> [] \<longrightarrow>
           (\<exists>C. mergeDiceDicts A B = Inr C \<and> distinct (map fst C) \<and>
                (\<forall>s. map_of C s =
                   (if pair_products A B s = [] then None
                    else Some (sum_list (pair_products A B s)))))) \<and>
         (A = [] \<longrightarrow> mergeDiceDicts A B = Inr B) \<and>
         (B = [] \<longrightarrow> mergeDiceDicts A B = Inr A)"
proof (intro conjI impI)
  assume ne: "A \<noteq> [] \<and> B \<noteq> []"
  let ?C = "fold accumulate (pair_entries A B) []"
  have m: "mergeDiceDicts A B = Inr ?C"
    using mergeDiceDicts_fold[OF assms] ne by simp
  have d: "distinct (map fst ?C)"
    by (rule distinct_fold_accumulate) simp
  have "map_of ?C s =
          (if pair_products A B s = [] then None else Some (sum_list (pair_products A B s)))" for s
    by (subst map_of_keys)
       (simp add: keys_fold_accumulate get_default_fold_accumulate
          pair_products_entries pair_products_Nil_iff get_default_Nil)
  with m d show "\<exists>C. mergeDiceDicts A B = Inr C \<and> distinct (map fst C) \<and>
      (\<forall>s. map_of C s =
         (if pair_products A B s = [] then None else Some (sum_list (pair_products A B s))))"
    by blast
next
  assume "A = []"
  then show "mergeDiceDicts A B = Inr B" by (simp add: mergeDiceDicts_def)
next
  assume "B = []"
  then show "mergeDiceDicts A B = Inr A" by (cases A) (simp_all add: mergeDiceDicts_def)
qed

theorem mergeDiceDicts_convolution_witness:
  "(\<exists>C. mergeDiceDicts [(1, 1), (2, 1)] [(1, 2), (2, 3)] = Inr C \<and>
        map_of C 3 = Some 5 \<and> map_of C 5 = None) \<and>
   mergeDiceDicts [] [(1, 2), (2, 3)] = Inr [(1, 2), (2, 3)] \<and>
   mergeDiceDicts [(1, 1), (2, 1)] [] = Inr [(1, 1), (2, 1)]"
proof -
  let ?A = "[(1, 1), (2, 1)] :: dict" and ?B = "[(1, 2), (2, 3)] :: dict"
  have dA: "distinct (map fst ?A)" and dB: "distinct (map fst ?B)" by simp_all
  have ne: "?A \<noteq> [] \<and> ?B \<noteq> []" by simp
  from mergeDiceDicts_convolution[OF dA dB] ne
  obtain C where C: "mergeDiceDicts ?A ?B = Inr C"
    and m: "\<And>s. map_of C s =
      (if pair_products ?A ?B s = [] then None else Some (sum_list (pair_products ?A ?B s)))"
    by blast
  have p3: "pair_products ?A ?B 3 = [3, 2]" by (simp add: pair_products_def)
  have p5: "pair_products ?A ?B 5 = []" by (simp add: pair_products_def)
  have dN: "distinct (map fst ([] :: dict))" by simp
  have "map_of C 3 = Some 5" by (simp add: m p3)
  moreover have "map_of C 5 = None" by (simp add: m p5)
  moreover have "mergeDiceDicts [] ?B = Inr ?B"
    using mergeDiceDicts_convolution[OF dN dB] by blast
  moreover have "mergeDiceDicts ?A [] = Inr ?A"
    using mergeDiceDicts_convolution[OF dA dN] by blast
  ultimately show ?thesis using C by blast
qed

section \<open>Convolution of outcome multisets\<close>

lemma conv_empty_left: "conv {#} N = {#}"
  by (simp add: conv_def)

lemma conv_add_left: "conv (add_mset a M) N = image_mset ((+) a) N + conv M N"
  by (simp add: conv_def)

lemma conv_union_left: "conv (M1 + M2) N = conv M1 N + conv M2 N"
  by (simp add: conv_def)

lemma conv_empty_right: "conv M {#} = {#}"
  by (induction M) (simp_all add: conv_empty_left conv_add_left)

lemma conv_add_right: "conv M (add_mset b N) = image_mset (\<lambda>a. a + b) M + conv M N"
  by (induction M) (simp_all add: conv_empty_left conv_add_left)

lemma conv_union_right: "conv M (N1 + N2) = conv M N1 + conv M N2"
  by (induction M) (simp_all add: conv_empty_left conv_add_left)

lemma conv_commute: "conv M N = conv N M"
proof (induction M)
  case empty
  then show ?case by (simp add: conv_empty_left conv_empty_right)
next
  case (add a M)
  have "image_mset ((+) a) N = image_mset (\<lambda>b. b + a) N"
    by (rule image_mset_cong) simp
  with add show ?case by (simp add: conv_add_left conv_add_right)
qed

lemma plus_plus_fun: "(+) (a + x) = (\<lambda>y. a + (x + y))" for a x :: int
  by (simp add: fun_eq_iff)

lemma conv_image_left: "conv (image_mset ((+) a) M) N = image_mset ((+) a) (conv M N)"
  by (induction M)
     (simp_all add: conv_empty_left conv_add_left multiset.map_comp comp_def plus_plus_fun)

lemma conv_assoc: "conv (conv M N) P = conv M (conv N P)"
  by (induction M) (simp_all add: conv_empty_left conv_add_left conv_union_left conv_image_left)

lemma size_conv: "size (conv M N) = size M * size N"
  by (induction M) (simp_all add: conv_empty_left conv_add_left)

lemma conv_eq_empty_iff: "conv M N = {#} \<longleftrightarrow> M = {#} \<or> N = {#}"
proof -
  have "conv M N = {#} \<longleftrightarrow> size (conv M N) = 0" by simp
  then show ?thesis by (simp add: size_conv)
qed

lemma replicate_mset_plus: "replicate_mset (m + n) x = replicate_mset m x + replicate_mset n x"
  by (induction m) simp_all

lemma conv_replicate:
  "conv (replicate_mset n a) (replicate_mset m b) = replicate_mset (n * m) (a + b)"
  by (induction n) (simp_all add: conv_empty_left conv_add_left replicate_mset_plus)

lemma qconv_commute: "qconv M N = qconv N M"
  by (simp add: qconv_def conv_commute)

lemma qconv_assoc: "qconv (qconv M N) P = qconv M (qconv N P)"
  by (simp add: qconv_def conv_assoc conv_eq_empty_iff)

lemma qconv_empty_left: "qconv {#} N = N"
  by (simp add: qconv_def)

lemma qconv_empty_right: "qconv M {#} = M"
  by (simp add: qconv_def)

lemma qconv_left_commute: "qconv M (qconv N P) = qconv N (qconv M P)"
  by (metis qconv_assoc qconv_commute)

lemma outcomes_Nil: "outcomes [] = {#}"
  by (simp add: outcomes_def)

lemma outcomes_Cons: "outcomes (p # d) = replicate_mset (nat (snd p)) (fst p) + outcomes d"
  by (simp add: outcomes_def)

lemma outcomes_append: "outcomes (d @ d') = outcomes d + outcomes d'"
  by (simp add: outcomes_def)

lemma accumulate_Nil: "accumulate e [] = [e]"
  by (simp add: accumulate_def get_default_def)

lemma accumulate_Cons:
  "accumulate e (p # ps) =
     (if fst p = fst e then (fst e, snd p + snd e) # ps else p # accumulate e ps)"
  by (cases p) (simp add: accumulate_def get_default_def)

lemma outcomes_accumulate:
  "0 \<le> snd e \<Longrightarrow> list_all (\<lambda>p. 0 \<le> snd p) nd \<Longrightarrow>
   outcomes (accumulate e nd) = outcomes nd + replicate_mset (nat (snd e)) (fst e)"
  by (induction nd)
     (simp_all add: accumulate_Nil accumulate_Cons outcomes_Nil outcomes_Cons nat_add_distrib
        replicate_mset_plus)

lemma nonneg_accumulate:
  "0 \<le> snd e \<Longrightarrow> list_all (\<lambda>p. 0 \<le> snd p) nd \<Longrightarrow> list_all (\<lambda>p. 0 \<le> snd p) (accumulate e nd)"
  by (induction nd) (simp_all add: accumulate_Nil accumulate_Cons)

lemma positive_accumulate:
  "0 < snd e \<Longrightarrow> list_all (\<lambda>p. 0 < snd p) nd \<Longrightarrow> list_all (\<lambda>p. 0 < snd p) (accumulate e nd)"
  by (induction nd) (simp_all add: accumulate_Nil accumulate_Cons)

lemma positive_fold_accumulate:
  "list_all (\<lambda>p. 0 < snd p) es \<Longrightarrow> list_all (\<lambda>p. 0 < snd p) nd \<Longrightarrow>
   list_all (\<lambda>p. 0 < snd p) (fold accumulate es nd)"
  by (induction es arbitrary: nd) (simp_all add: positive_accumulate)

lemma outcomes_fold_accumulate:
  "list_all (\<lambda>p. 0 \<le> snd p) es \<Longrightarrow> list_all (\<lambda>p. 0 \<le> snd p) nd \<Longrightarrow>
   outcomes (fold accumulate es nd) = outcomes nd + outcomes es"
  by (induction es arbitrary: nd)
     (simp_all add: outcomes_accumulate nonneg_accumulate outcomes_Nil outcomes_Cons)

lemma positive_nonneg: "list_all (\<lambda>p. 0 < snd p) d \<Longrightarrow> list_all (\<lambda>p. (0::int) \<le> snd p) d"
  by (induction d) simp_all

lemma outcomes_pair_row:
  "0 \<le> snd p \<Longrightarrow> list_all (\<lambda>q. 0 \<le> snd q) B \<Longrightarrow>
   outcomes (map (\<lambda>q. (fst p + fst q, snd p * snd q)) B) =
   conv (replicate_mset (nat (snd p)) (fst p)) (outcomes B)"
  by (induction B)
     (simp_all add: outcomes_Nil outcomes_Cons conv_empty_right conv_union_right conv_replicate
        nat_mult_distrib)

lemma outcomes_pair_entries:
  "list_all (\<lambda>p. 0 \<le> snd p) A \<Longrightarrow> list_all (\<lambda>q. 0 \<le> snd q) B \<Longrightarrow>
   outcomes (pair_entries A B) = conv (outcomes A) (outcomes B)"
proof (induction A)
  case Nil
  then show ?case by (simp add: pair_entries_def outcomes_Nil conv_empty_left)
next
  case (Cons p A)
  have "pair_entries (p # A) B = map (\<lambda>q. (fst p + fst q, snd p * snd q)) B @ pair_entries A B"
    by (simp add: pair_entries_def)
  with Cons show ?case
    by (simp add: outcomes_append outcomes_pair_row outcomes_Cons conv_union_left)
qed

lemma positive_pair_entries:
  "list_all (\<lambda>p. 0 < snd p) A \<Longrightarrow> list_all (\<lambda>q. 0 < snd q) B \<Longrightarrow>
   list_all (\<lambda>e. 0 < snd e) (pair_entries A B)"
  by (auto simp: pair_entries_def list_all_iff)

lemma outcomes_eq_empty_iff: "list_all (\<lambda>p. 0 < snd p) d \<Longrightarrow> outcomes d = {#} \<longleftrightarrow> d = []"
  by (cases d) (simp_all add: outcomes_Nil outcomes_Cons)

lemma mergeDiceDicts_outcomes:
  assumes "wf_dict A" and "wf_dict B"
  shows "\<exists>C. mergeDiceDicts A B = Inr C \<and> wf_dict C \<and>
             outcomes C = qconv (outcomes A) (outcomes B)"
proof (cases "A = [] \<or> B = []")
  case True
  then show ?thesis
    using assms by (cases A) (auto simp: mergeDiceDicts_def qconv_def outcomes_Nil)
next
  case False
  let ?C = "fold accumulate (pair_entries A B) []"
  have pA: "list_all (\<lambda>p. 0 < snd p) A" and pB: "list_all (\<lambda>p. 0 < snd p) B"
    using assms by (simp_all add: wf_dict_def)
  have m: "mergeDiceDicts A B = Inr ?C"
    using mergeDiceDicts_fold[of A B] assms False by (simp add: wf_dict_def)
  have w: "wf_dict ?C"
    unfolding wf_dict_def
    using distinct_fold_accumulate[of "[]"] positive_fold_accumulate[of "pair_entries A B" "[]"]
      positive_pair_entries[OF pA pB] by simp
  have "outcomes ?C = conv (outcomes A) (outcomes B)"
    using outcomes_fold_accumulate[of "pair_entries A B" "[]"]
      positive_nonneg[OF positive_pair_entries[OF pA pB]]
      outcomes_pair_entries[OF positive_nonneg[OF pA] positive_nonneg[OF pB]]
    by (simp add: outcomes_Nil)
  moreover have "outcomes A \<noteq> {#}" "outcomes B \<noteq> {#}"
    using False pA pB by (simp_all add: outcomes_eq_empty_iff)
  ultimately have "outcomes ?C = qconv (outcomes A) (outcomes B)"
    by (simp add: qconv_def)
  with m w show ?thesis by blast
qed

section \<open>Dicts and their outcome multisets\<close>

lemma wf_dict_sort: "wf_dict d \<Longrightarrow> wf_dict (sort d)"
proof -
  assume w: "wf_dict d"
  have "mset (map fst (sort d)) = mset (map fst d)" by simp
  then have "distinct (map fst (sort d)) = distinct (map fst d)"
    by (rule mset_eq_imp_distinct_iff)
  with w show ?thesis by (simp add: wf_dict_def list_all_iff)
qed

lemma outcomes_mset: "mset d = mset d' \<Longrightarrow> outcomes d = outcomes d'"
proof -
  assume "mset d = mset d'"
  then have "mset (map (\<lambda>p. replicate_mset (nat (snd p)) (fst p)) d) =
             mset (map (\<lambda>p. replicate_mset (nat (snd p)) (fst p)) d')"
    by simp
  then have "sum_mset (mset (map (\<lambda>p. replicate_mset (nat (snd p)) (fst p)) d)) =
             sum_mset (mset (map (\<lambda>p. replicate_mset (nat (snd p)) (fst p)) d'))"
    by (rule arg_cong)
  then show ?thesis by (simp only: outcomes_def sum_mset_sum_list)
qed

lemma outcomes_sort: "outcomes (sort d) = outcomes d"
  by (rule outcomes_mset) simp

lemma count_outcomes:
  "distinct (map fst d) \<Longrightarrow> list_all (\<lambda>p. 0 \<le> snd p) d \<Longrightarrow>
   count (outcomes d) k = nat (get_default d k 0)"
proof (induction d)
  case Nil
  then show ?case by (simp add: outcomes_Nil get_default_Nil)
next
  case (Cons p d)
  then show ?case
    by (cases p) (auto simp: outcomes_Cons get_default_def map_of_eq_None_iff split: option.splits
        dest: map_of_SomeD intro: rev_image_eqI)
qed

lemma map_of_outcomes:
  assumes "wf_dict d"
  shows "map_of d k = (if k \<in># outcomes d then Some (int (count (outcomes d) k)) else None)"
proof (cases "map_of d k")
  case None
  then have "get_default d k 0 = 0" by (simp add: get_default_def)
  then have "count (outcomes d) k = 0"
    using assms count_outcomes[of d k] by (simp add: wf_dict_def positive_nonneg)
  with None show ?thesis by (simp add: not_in_iff)
next
  case (Some v)
  then have "(k, v) \<in> set d" by (rule map_of_SomeD)
  then have "0 < v" using assms by (auto simp: wf_dict_def list_all_iff)
  moreover have "count (outcomes d) k = nat v"
    using assms count_outcomes[of d k] Some by (simp add: wf_dict_def positive_nonneg get_default_def)
  ultimately show ?thesis using Some by (simp add: count_greater_zero_iff[symmetric] del: count_greater_zero_iff)
qed

lemma map_of_eq_outcomes:
  "wf_dict d \<Longrightarrow> wf_dict d' \<Longrightarrow> outcomes d = outcomes d' \<Longrightarrow> map_of d = map_of d'"
  by (rule ext) (simp add: map_of_outcomes)

lemma sum_values_outcomes:
  "list_all (\<lambda>p. 0 \<le> snd p) d \<Longrightarrow> sum_list (map snd d) = int (size (outcomes d))"
  by (induction d) (simp_all add: outcomes_Nil outcomes_Cons)

lemma fold_update_map:
  "distinct xs \<Longrightarrow> set xs \<inter> fst ` set acc = {} \<Longrightarrow>
   fold (\<lambda>x nd. AList.update x (f x) nd) xs acc = acc @ map (\<lambda>x. (x, f x)) xs"
proof (induction xs arbitrary: acc)
  case Nil
  then show ?case by simp
next
  case (Cons x xs)
  have u: "AList.update x (f x) acc = acc @ [(x, f x)]"
    using Cons.prems(2) by (induction acc) auto
  have "set xs \<inter> fst ` set (acc @ [(x, f x)]) = {}"
    using Cons.prems by auto
  with Cons u show ?case by simp
qed

lemma explicit_die_dict:
  "fold (\<lambda>x newDict. AList.update x (int (count_list vs x)) newDict) (remdups vs) [] =
   map (\<lambda>x. (x, int (count_list vs x))) (remdups vs)"
  using fold_update_map[of "remdups vs" "[]" "\<lambda>x. int (count_list vs x)"] by simp

lemma wf_explicit_die: "wf_dict (map (\<lambda>x. (x, int (count_list vs x))) (remdups vs))"
proof -
  have "0 < count_list vs p" if "p \<in> set vs" for p
    using that count_list_0_iff[of vs p] by (cases "count_list vs p") simp_all
  then show ?thesis by (simp add: wf_dict_def list_all_iff comp_def)
qed

lemma outcomes_explicit_die:
  "outcomes (map (\<lambda>x. (x, int (count_list vs x))) (remdups vs)) = mset vs"
proof (rule multiset_eqI)
  fix k
  let ?d = "map (\<lambda>x. (x, int (count_list vs x))) (remdups vs)"
  have "wf_dict ?d" by (rule wf_explicit_die)
  then have "count (outcomes ?d) k = nat (get_default ?d k 0)"
    using count_outcomes[of ?d k] by (simp add: wf_dict_def positive_nonneg)
  also have "\<dots> = count_list vs k"
    by (auto simp: get_default_def map_of_map_restrict restrict_map_def count_list_0_iff comp_def)
  finally show "count (outcomes ?d) k = count (mset vs) k" by (simp add: count_mset)
qed

lemma wf_uniform_die: "wf_dict (map (\<lambda>x. (x, 1)) [1..n])"
  by (simp add: wf_dict_def list_all_iff comp_def)

lemma outcomes_uniform_die: "outcomes (map (\<lambda>x. (x, 1)) xs) = mset xs"
  by (induction xs) (simp_all add: outcomes_Nil outcomes_Cons)

section \<open>What the builder returns\<close>

lemma all_outcomes_Nil: "all_outcomes [] = {#}"
  by (simp add: all_outcomes_def)

lemma all_outcomes_Cons: "all_outcomes (d # ds) = qconv (mset (faces d)) (all_outcomes ds)"
  by (simp add: all_outcomes_def)

lemma all_outcomes_single: "all_outcomes [d] = mset (faces d)"
  by (simp add: all_outcomes_def qconv_empty_right)

lemma all_outcomes_append: "all_outcomes (xs @ ys) = qconv (all_outcomes xs) (all_outcomes ys)"
  by (induction xs) (simp_all add: all_outcomes_Nil all_outcomes_Cons qconv_empty_left qconv_assoc)

lemma all_outcomes_mset:
  assumes "mset xs = mset ys"
  shows "all_outcomes xs = all_outcomes ys"
proof -
  let ?f = "\<lambda>d M. qconv (mset (faces d)) M"
  have "fold ?f (rev xs) = fold ?f (rev ys)"
  proof (rule fold_multiset_equiv)
    show "?f x \<circ> ?f y = ?f y \<circ> ?f x" for x y
      by (rule ext) (simp add: qconv_left_commute)
    show "mset (rev xs) = mset (rev ys)" using assms by simp
  qed
  then show ?thesis by (simp add: all_outcomes_def foldr_conv_fold)
qed

lemma valid_mset:
  assumes "mset xs = mset ys"
  shows "list_all valid_die xs = list_all valid_die ys"
proof -
  have "set xs = set ys" using assms by (rule mset_eq_setD)
  then show ?thesis by (simp add: list_all_iff)
qed

lemma builds_mset: "mset xs = mset ys \<Longrightarrow> builds xs res = builds ys res"
  by (simp add: builds_def all_outcomes_mset[of xs ys] valid_mset[of xs ys])

lemma builds_combine:
  assumes "builds xs resL" and "builds ys resR"
    and post: "\<And>d. wf_dict d \<Longrightarrow> wf_dict (post d) \<and> outcomes (post d) = outcomes d"
  shows "builds (xs @ ys) (combine post resL resR)"
proof (cases "list_all valid_die xs")
  case False
  with assms(1) show ?thesis by (auto simp: builds_def combine_def)
next
  case vx: True
  then obtain dl where dl: "resL = Inr dl" "wf_dict dl" "outcomes dl = all_outcomes xs"
    using assms(1) by (auto simp: builds_def)
  show ?thesis
  proof (cases "list_all valid_die ys")
    case False
    with assms(2) dl show ?thesis by (auto simp: builds_def combine_def)
  next
    case vy: True
    then obtain dr where dr: "resR = Inr dr" "wf_dict dr" "outcomes dr = all_outcomes ys"
      using assms(2) by (auto simp: builds_def)
    obtain C where C: "mergeDiceDicts dl dr = Inr C" "wf_dict C"
        "outcomes C = qconv (outcomes dl) (outcomes dr)"
      using mergeDiceDicts_outcomes[OF dl(2) dr(2)] by blast
    have "combine post resL resR = Inr (post C)"
      using dl(1) dr(1) C(1) by (simp add: combine_def)
    moreover have "wf_dict (post C)" "outcomes (post C) = all_outcomes (xs @ ys)"
      using post[OF C(2)] C(3) dl(3) dr(3) by (simp_all add: all_outcomes_append)
    ultimately show ?thesis using vx vy by (simp add: builds_def)
  qed
qed

lemma builds_single:
  "builds [x]
     (case x of
        ListE vs \<Rightarrow> Inr (fold (\<lambda>x newDict. AList.update x (int (count_list vs x)) newDict) (remdups vs) [])
      | IntE n \<Rightarrow> if n > 0 then Inr (map (\<lambda>x. (x, 1)) [1..n]) else Inl InvalidDieError
      | StrE s \<Rightarrow> Inl TypeError)"
  by (cases x)
     (simp_all add: builds_def all_outcomes_single explicit_die_dict wf_explicit_die
        outcomes_explicit_die wf_uniform_die outcomes_uniform_die)

lemma builds_Nil: "builds [] (Inr [])"
  by (simp add: builds_def all_outcomes_Nil outcomes_Nil wf_dict_def)

lemma diceDict_node:
  "fst (diceDict r (ListA (x # y # zs))) =
     (case shuffle (x # y # zs) r of
        (ys, r1) \<Rightarrow>
          combine sort (fst (diceDict r1 (ListA (take (length ys div 2) ys))))
            (fst (diceDict (snd (snd (diceDict r1 (ListA (take (length ys div 2) ys)))))
                   (ListA (drop (length ys div 2) ys)))))"
  by (simp add: combine_def Let_def split: prod.splits sum.splits)

lemma mset_shuffle_loop: "i < length xs \<Longrightarrow> mset (fst (shuffle_loop i xs r)) = mset xs"
proof (induction i xs r rule: shuffle_loop.induct)
  case (1 xs r)
  then show ?case by simp
next
  case (2 i xs r)
  obtain j r' where jr: "randbelow (Suc (Suc i)) r = (j, r')" by (cases "randbelow (Suc (Suc i)) r")
  have "j < Suc (Suc i)" using jr by (cases r) auto
  with 2 jr show ?case by (simp add: mset_swap)
qed

lemma mset_shuffle: "mset (fst (shuffle xs r)) = mset xs"
  by (cases xs) (simp_all add: shuffle_def mset_shuffle_loop)

lemma diceDict_builds: "builds ds (fst (diceDict r (ListA ds)))"
proof (induction "length ds" arbitrary: ds r rule: less_induct)
  case less
  show ?case
  proof (cases ds)
    case Nil
    then show ?thesis by (simp add: builds_Nil)
  next
    case (Cons x ds')
    show ?thesis
    proof (cases ds')
      case Nil
      with Cons builds_single[of x] show ?thesis by (cases x) simp_all
    next
      case (Cons y zs)
      obtain ys r1 where sh: "shuffle ds r = (ys, r1)" by (cases "shuffle ds r")
      have len: "length ys = length ds" and ms: "mset ys = mset ds"
        using sh length_shuffle[of ds r] mset_shuffle[of ds r] by simp_all
      let ?L = "length ys div 2"
      let ?left = "diceDict r1 (ListA (take ?L ys))"
      have two: "2 \<le> length ds" using \<open>ds = x # ds'\<close> Cons by simp
      have "builds (take ?L ys) (fst ?left)"
        using less[of "take ?L ys" r1] len two by simp
      moreover have "builds (drop ?L ys) (fst (diceDict (snd (snd ?left)) (ListA (drop ?L ys))))"
        using less[of "drop ?L ys" "snd (snd ?left)"] len two by simp
      ultimately have "builds (take ?L ys @ drop ?L ys)
          (combine sort (fst ?left) (fst (diceDict (snd (snd ?left)) (ListA (drop ?L ys)))))"
        by (rule builds_combine) (simp add: wf_dict_sort outcomes_sort)
      then have "builds ys (fst (diceDict r (ListA ds)))"
        using sh \<open>ds = x # ds'\<close> Cons by (simp add: diceDict_node del: diceDict.simps)
      then show ?thesis by (simp add: builds_mset[OF ms])
    qed
  qed
qed

lemma diceDict_old_node:
  "fst (diceDict_old r (ListA (x # y # zs))) =
     (case shuffle (x # y # zs) r of
        (ys, r1) \<Rightarrow>
          combine (\<lambda>d. d) (fst (diceDict_old r1 (ListA (take (length ys div 2) ys))))
            (fst (diceDict_old (snd (snd (diceDict_old r1 (ListA (take (length ys div 2) ys)))))
                   (ListA (drop (length ys div 2) ys)))))"
  by (simp add: combine_def Let_def split: prod.splits sum.splits)

lemma diceDict_old_builds: "builds ds (fst (diceDict_old r (ListA ds)))"
proof (induction "length ds" arbitrary: ds r rule: less_induct)
  case less
  show ?case
  proof (cases ds)
    case Nil
    then show ?thesis by (simp add: builds_Nil)
  next
    case (Cons x ds')
    show ?thesis
    proof (cases ds')
      case Nil
      with Cons builds_single[of x] show ?thesis by (cases x) simp_all
    next
      case (Cons y zs)
      obtain ys r1 where sh: "shuffle ds r = (ys, r1)" by (cases "shuffle ds r")
      have len: "length ys = length ds" and ms: "mset ys = mset ds"
        using sh length_shuffle[of ds r] mset_shuffle[of ds r] by simp_all
      let ?L = "length ys div 2"
      let ?left = "diceDict_old r1 (ListA (take ?L ys))"
      have two: "2 \<le> length ds" using \<open>ds = x # ds'\<close> Cons by simp
      have "builds (take ?L ys) (fst ?left)"
        using less[of "take ?L ys" r1] len two by simp
      moreover have "builds (drop ?L ys) (fst (diceDict_old (snd (snd ?left)) (ListA (drop ?L ys))))"
        using less[of "drop ?L ys" "snd (snd ?left)"] len two by simp
      ultimately have "builds (take ?L ys @ drop ?L ys)
          (combine (\<lambda>d. d) (fst ?left) (fst (diceDict_old (snd (snd ?left)) (ListA (drop ?L ys)))))"
        by (rule builds_combine) simp
      then have "builds ys (fst (diceDict_old r (ListA ds)))"
        using sh \<open>ds = x # ds'\<close> Cons by (simp add: diceDict_old_node del: diceDict_old.simps)
      then show ?thesis by (simp add: builds_mset[OF ms])
    qed
  qed
qed

lemma split_point_bounds: "2 \<le> n \<Longrightarrow> 0 < split_point sp n \<and> split_point sp n < n"
  by (auto simp: split_point_def)

lemma diceDict_split_node:
  "fst (diceDict_split sp r (ListA (x # y # zs))) =
     (case shuffle (x # y # zs) r of
        (ys, r1) \<Rightarrow>
          combine sort (fst (diceDict_split sp r1 (ListA (take (split_point sp (length ys)) ys))))
            (fst (diceDict_split sp
                   (snd (snd (diceDict_split sp r1 (ListA (take (split_point sp (length ys)) ys)))))
                   (ListA (drop (split_point sp (length ys)) ys)))))"
  by (simp add: combine_def Let_def split: prod.splits sum.splits)

lemma diceDict_split_builds: "builds ds (fst (diceDict_split sp r (ListA ds)))"
proof (induction "length ds" arbitrary: ds r rule: less_induct)
  case less
  show ?case
  proof (cases ds)
    case Nil
    then show ?thesis by (simp add: builds_Nil)
  next
    case (Cons x ds')
    show ?thesis
    proof (cases ds')
      case Nil
      with Cons builds_single[of x] show ?thesis by (cases x) simp_all
    next
      case (Cons y zs)
      obtain ys r1 where sh: "shuffle ds r = (ys, r1)" by (cases "shuffle ds r")
      have len: "length ys = length ds" and ms: "mset ys = mset ds"
        using sh length_shuffle[of ds r] mset_shuffle[of ds r] by simp_all
      let ?L = "split_point sp (length ys)"
      let ?left = "diceDict_split sp r1 (ListA (take ?L ys))"
      have two: "2 \<le> length ds" using \<open>ds = x # ds'\<close> Cons by simp
      have L: "0 < ?L" "?L < length ds"
        using split_point_bounds[of "length ys" sp] two len by simp_all
      have dl: "length ys - ?L < length ds" using L len by arith
      have "builds (take ?L ys) (fst ?left)"
        using less[of "take ?L ys" r1] len L by simp
      moreover have "builds (drop ?L ys) (fst (diceDict_split sp (snd (snd ?left)) (ListA (drop ?L ys))))"
        using less[of "drop ?L ys" "snd (snd ?left)"] dl by simp
      ultimately have "builds (take ?L ys @ drop ?L ys)
          (combine sort (fst ?left) (fst (diceDict_split sp (snd (snd ?left)) (ListA (drop ?L ys)))))"
        by (rule builds_combine) (simp add: wf_dict_sort outcomes_sort)
      then have "builds ys (fst (diceDict_split sp r (ListA ds)))"
        using sh \<open>ds = x # ds'\<close> Cons by (simp add: diceDict_split_node del: diceDict_split.simps)
      then show ?thesis by (simp add: builds_mset[OF ms])
    qed
  qed
qed

lemma diceDict_split_floor: "diceDict_split (\<lambda>n. n div 2) r a = diceDict r a"
proof (induction r a rule: diceDict.induct)
  case (7 r x y zs)
  obtain ys r1 where sh: "shuffle (x # y # zs) r = (ys, r1)" by (cases "shuffle (x # y # zs) r")
  have len: "length ys = Suc (Suc (length zs))" using sh length_shuffle[of "x # y # zs" r] by simp
  have L: "split_point (\<lambda>n. n div 2) (length ys) = length ys div 2"
    using len by (simp add: split_point_def)
  show ?case using 7 sh L
    by (simp add: Let_def split: prod.splits sum.splits)
qed simp_all

text \<open>
  The lists \<^verbatim>\<open>diceDict\<close> accepts are the lists of valid dice: ints \<open>n > 0\<close> and lists of
  faces.
\<close>

lemma diceDict_accepts_iff:
  "(\<exists>d. fst (diceDict r (ListA ds)) = Inr d) \<longleftrightarrow> list_all valid_die ds"
  using diceDict_builds[of ds r] by (auto simp: builds_def split: if_splits)

section \<open>The total count\<close>

lemma builds_Inr:
  "builds ds (Inr d) \<Longrightarrow> list_all valid_die ds \<and> wf_dict d \<and> outcomes d = all_outcomes ds"
  by (auto simp: builds_def split: if_splits)

lemma size_qconv:
  "size (qconv M N) = (if M = {#} then size N else if N = {#} then size M else size M * size N)"
  by (simp add: qconv_def size_conv)

lemma qconv_eq_empty_iff: "qconv M N = {#} \<longleftrightarrow> M = {#} \<and> N = {#}"
  by (auto simp: qconv_def conv_eq_empty_iff)

lemma all_outcomes_eq_empty_iff: "all_outcomes ds = {#} \<longleftrightarrow> list_all (\<lambda>x. faces x = []) ds"
  by (induction ds) (simp_all add: all_outcomes_Nil all_outcomes_Cons qconv_eq_empty_iff)

lemma size_all_outcomes:
  "size (all_outcomes ds) =
     (if list_all (\<lambda>x. faces x = []) ds then 0
      else prod_list (map (\<lambda>x. length (faces x)) (filter (\<lambda>x. faces x \<noteq> []) ds)))"
proof (induction ds)
  case Nil
  then show ?case by (simp add: all_outcomes_Nil)
next
  case (Cons x ds)
  show ?case
  proof (cases "faces x = []")
    case True
    with Cons show ?thesis by (simp add: all_outcomes_Cons qconv_empty_left)
  next
    case False
    with Cons show ?thesis
      by (simp add: all_outcomes_Cons size_qconv all_outcomes_eq_empty_iff filter_empty_conv
            list_all_iff)
  qed
qed

lemma valid_faces_empty: "valid_die x \<Longrightarrow> faces x = [] \<longleftrightarrow> face_count x = 0"
  by (cases x) auto

lemma valid_face_count: "valid_die x \<Longrightarrow> int (length (faces x)) = face_count x"
  by (cases x) simp_all

lemma prod_face_count:
  "list_all valid_die ds \<Longrightarrow>
   int (prod_list (map (\<lambda>x. length (faces x)) ds)) = prod_list (map face_count ds)"
  by (induction ds) (simp_all add: valid_face_count)

lemma valid_filter: "list_all valid_die ds \<Longrightarrow> list_all valid_die (filter P ds)"
  by (simp add: list_all_iff)

lemma wf_sum_zero: "wf_dict d \<Longrightarrow> sum_list (map snd d) = 0 \<Longrightarrow> d = []"
proof -
  assume w: "wf_dict d" and s: "sum_list (map snd d) = 0"
  have "sum_list (map snd d) = int (size (outcomes d))"
    using w sum_values_outcomes[of d] by (simp add: wf_dict_def positive_nonneg)
  with s have "outcomes d = {#}" by simp
  with w show ?thesis by (simp add: outcomes_eq_empty_iff wf_dict_def)
qed

text \<open>
  C2, as amended. For every non-empty die-list that \<^verbatim>\<open>diceDict\<close> accepts, the sum of
  the counts of the returned dict is the product of the face counts of the dice that have
  at least one face: a die given by an empty list of faces is dropped by the merge and
  contributes no factor. When every die of the list is such an empty die the returned
  dict is the empty dict and the sum is 0. In particular the sum is the product over all
  dice whenever no die is empty.
\<close>

theorem diceDict_total_count:
  assumes "ds \<noteq> []" and "fst (diceDict r (ListA ds)) = Inr d"
  shows "sum_list (map snd d) =
           (if list_all (\<lambda>x. face_count x = 0) ds then 0
            else prod_list (map face_count (filter (\<lambda>x. face_count x \<noteq> 0) ds))) \<and>
         (list_all (\<lambda>x. face_count x \<noteq> 0) ds \<longrightarrow>
            sum_list (map snd d) = prod_list (map face_count ds)) \<and>
         (list_all (\<lambda>x. face_count x = 0) ds \<longrightarrow> d = [] \<and> sum_list (map snd d) = 0)"
proof -
  have b: "list_all valid_die ds \<and> wf_dict d \<and> outcomes d = all_outcomes ds"
    using diceDict_builds[of ds r] assms(2) by (simp add: builds_Inr)
  then have e: "(faces x = []) = (face_count x = 0)" if "x \<in> set ds" for x
    using that by (simp add: list_all_iff valid_faces_empty)
  have l: "list_all (\<lambda>x. faces x = []) ds = list_all (\<lambda>x. face_count x = 0) ds"
    using e by (simp add: list_all_iff)
  have f: "filter (\<lambda>x. faces x \<noteq> []) ds = filter (\<lambda>x. face_count x \<noteq> 0) ds"
    by (rule filter_cong) (simp_all add: e)
  have "sum_list (map snd d) = int (size (all_outcomes ds))"
    using b sum_values_outcomes[of d] by (simp add: wf_dict_def positive_nonneg)
  also have "\<dots> = (if list_all (\<lambda>x. faces x = []) ds then 0
            else prod_list (map face_count (filter (\<lambda>x. faces x \<noteq> []) ds)))"
    using b prod_face_count[OF valid_filter, of ds "\<lambda>x. faces x \<noteq> []"]
    by (simp add: size_all_outcomes)
  finally have s: "sum_list (map snd d) =
           (if list_all (\<lambda>x. face_count x = 0) ds then 0
            else prod_list (map face_count (filter (\<lambda>x. face_count x \<noteq> 0) ds)))"
    by (simp only: l f)
  have "sum_list (map snd d) = prod_list (map face_count ds)"
    if n: "list_all (\<lambda>x. face_count x \<noteq> 0) ds"
  proof -
    have "filter (\<lambda>x. face_count x \<noteq> 0) ds = ds" using n by (simp add: list_all_iff)
    moreover have "\<not> list_all (\<lambda>x. face_count x = 0) ds"
      using n assms(1) by (cases ds) simp_all
    ultimately show ?thesis using s by simp
  qed
  moreover have "d = [] \<and> sum_list (map snd d) = 0"
    if z: "list_all (\<lambda>x. face_count x = 0) ds"
  proof -
    have "sum_list (map snd d) = 0" using s z by simp
    moreover from this have "d = []" using b wf_sum_zero[of d] by simp
    ultimately show ?thesis by simp
  qed
  ultimately show ?thesis using s by blast
qed

text \<open>
  The claim as first stated fails on \<^verbatim>\<open>[[], 2]\<close>: the counts sum to 2, the product of
  the face counts is \<open>0 * 2 = 0\<close>.
\<close>

theorem diceDict_total_count_counterexample:
  "fst (diceDict [] (ListA [ListE [], IntE 2])) = Inr [(1, 1), (2, 1)] \<and>
   sum_list (map snd [(1, 1), (2, 1) :: int \<times> int]) \<noteq> prod_list (map face_count [ListE [], IntE 2])"
  by (simp add: shuffle_def mergeDiceDicts_def upto.simps)

theorem diceDict_total_count_witness:
  "fst (diceDict [] (ListA [IntE 2, ListE [5, 5, 7]])) = Inr [(6, 2), (7, 2), (8, 1), (9, 1)] \<and>
   sum_list (map snd [(6, 2), (7, 2), (8, 1), (9, 1) :: int \<times> int]) =
   prod_list (map face_count [IntE 2, ListE [5, 5, 7]]) \<and>
   fst (diceDict [] (ListA [ListE [], ListE []])) = Inr []"
proof -
  have r: "fst (diceDict [] (ListA [IntE 2, ListE [5, 5, 7]])) = Inr [(6, 2), (7, 2), (8, 1), (9, 1)]"
    by (simp add: shuffle_def mergeDiceDicts_def getitem_def get_default_def upto.simps)
  have n: "list_all (\<lambda>x. face_count x \<noteq> 0) [IntE 2, ListE [5, 5, 7]]" by simp
  have a: "sum_list (map snd [(6, 2), (7, 2), (8, 1), (9, 1) :: int \<times> int]) =
           prod_list (map face_count [IntE 2, ListE [5, 5, 7]])"
    using diceDict_total_count[OF _ r] n by simp
  obtain d where d: "fst (diceDict [] (ListA [ListE [], ListE []])) = Inr d"
    using diceDict_accepts_iff[of "[]" "[ListE [], ListE []]"] by auto
  have z: "list_all (\<lambda>x. face_count x = 0) [ListE [], ListE []]" by simp
  have "d = []" using diceDict_total_count[OF _ d] z by simp
  with d r a show ?thesis by simp
qed

section \<open>Independence of order, shuffle and split point\<close>

lemma builds_Inr_ex:
  "list_all valid_die ds \<Longrightarrow> builds ds res \<Longrightarrow>
   \<exists>d. res = Inr d \<and> wf_dict d \<and> outcomes d = all_outcomes ds"
  by (simp add: builds_def)

text \<open>
  C3. For every valid die-list, \<^verbatim>\<open>diceDict\<close> returns the same mapping whatever the random
  shuffles draw (the generators \<open>r\<close>, \<open>r'\<close>, \<open>r''\<close> are arbitrary), for every permutation
  \<open>ds'\<close> of the list, and for every choice \<open>sp\<close> of the split point in the recursive case;
  splitting at \<open>length div 2\<close>, as the source does, is one such choice.
\<close>

theorem diceDict_permutation_split_invariant:
  assumes "list_all valid_die ds" and "mset ds' = mset ds"
  shows "\<exists>d. fst (diceDict r (ListA ds)) = Inr d \<and>
             (\<exists>d'. fst (diceDict r' (ListA ds')) = Inr d' \<and> map_of d' = map_of d) \<and>
             (\<exists>d''. fst (diceDict_split sp r'' (ListA ds')) = Inr d'' \<and> map_of d'' = map_of d) \<and>
             diceDict_split (\<lambda>n. n div 2) r (ListA ds) = diceDict r (ListA ds)"
proof -
  have v': "list_all valid_die ds'" using assms valid_mset[of ds' ds] by simp
  have o': "all_outcomes ds' = all_outcomes ds" using assms(2) by (rule all_outcomes_mset)
  obtain d where d: "fst (diceDict r (ListA ds)) = Inr d" "wf_dict d" "outcomes d = all_outcomes ds"
    using builds_Inr_ex[OF assms(1) diceDict_builds[of ds r]] by blast
  obtain d' where d': "fst (diceDict r' (ListA ds')) = Inr d'" "wf_dict d'"
      "outcomes d' = all_outcomes ds'"
    using builds_Inr_ex[OF v' diceDict_builds[of ds' r']] by blast
  obtain d'' where d'': "fst (diceDict_split sp r'' (ListA ds')) = Inr d''" "wf_dict d''"
      "outcomes d'' = all_outcomes ds'"
    using builds_Inr_ex[OF v' diceDict_split_builds[of ds' sp r'']] by blast
  have "map_of d' = map_of d"
    by (rule map_of_eq_outcomes[OF d'(2) d(2)]) (simp add: d(3) d'(3) o')
  moreover have "map_of d'' = map_of d"
    by (rule map_of_eq_outcomes[OF d''(2) d(2)]) (simp add: d(3) d''(3) o')
  ultimately show ?thesis using d(1) d'(1) d''(1) by (simp add: diceDict_split_floor)
qed

theorem diceDict_permutation_split_invariant_witness:
  "fst (diceDict [] (ListA [IntE 2, ListE [5, 5, 7], IntE 3])) =
     Inr [(7, 2), (8, 4), (9, 5), (10, 4), (11, 2), (12, 1)] \<and>
   fst (diceDict [0, 1, 0] (ListA [ListE [5, 5, 7], IntE 3, IntE 2])) =
     Inr [(7, 2), (8, 4), (9, 5), (10, 4), (11, 2), (12, 1)] \<and>
   fst (diceDict_split (\<lambda>n. (n + 1) div 2) [1] (ListA [ListE [5, 5, 7], IntE 3, IntE 2])) =
     Inr [(7, 2), (8, 4), (9, 5), (10, 4), (11, 2), (12, 1)]"
proof -
  have v: "list_all valid_die [IntE 2, ListE [5, 5, 7], IntE 3]" by simp
  have m: "mset [ListE [5, 5, 7], IntE 3, IntE 2] = mset [IntE 2, ListE [5, 5, 7], IntE 3]" by simp
  have a: "fst (diceDict [] (ListA [IntE 2, ListE [5, 5, 7], IntE 3])) =
     Inr [(7, 2), (8, 4), (9, 5), (10, 4), (11, 2), (12, 1)]" by code_simp
  have b: "fst (diceDict [0, 1, 0] (ListA [ListE [5, 5, 7], IntE 3, IntE 2])) =
     Inr [(7, 2), (8, 4), (9, 5), (10, 4), (11, 2), (12, 1)]" by code_simp
  have c: "fst (diceDict_split (\<lambda>n. (n + 1) div 2) [1] (ListA [ListE [5, 5, 7], IntE 3, IntE 2])) =
     Inr [(7, 2), (8, 4), (9, 5), (10, 4), (11, 2), (12, 1)]" by code_simp
  from diceDict_permutation_split_invariant[OF v m, of "[]" "[0, 1, 0]" "\<lambda>n. (n + 1) div 2" "[1]"]
  show ?thesis using a b c by simp
qed

section \<open>The caller's list, and the empty distribution\<close>

lemma diceDict_list_after:
  "fst (snd (diceDict r (ListA (x # y # zs)))) = ListA (fst (shuffle (x # y # zs) r))"
  by (simp add: Let_def split: prod.splits sum.splits)

text \<open>
  C4, as amended. After \<^verbatim>\<open>diceDict(diceList)\<close> the caller's list holds the same dice as
  before, each as often as before, and a list of fewer than two dice is unchanged; the
  order of a longer list is the one \<^verbatim>\<open>random.shuffle\<close> left, whether the call returned
  or raised.
\<close>

theorem diceDict_caller_list:
  "\<exists>ds'. fst (snd (diceDict r (ListA ds))) = ListA ds' \<and> mset ds' = mset ds \<and>
         (length ds < 2 \<longrightarrow> ds' = ds)"
proof (cases ds)
  case Nil
  then show ?thesis by simp
next
  case (Cons x ds')
  show ?thesis
  proof (cases ds')
    case Nil
    with Cons show ?thesis by (cases x) simp_all
  next
    case (Cons y zs)
    with \<open>ds = x # ds'\<close> show ?thesis
      using mset_shuffle[of "x # y # zs" r] by (simp add: diceDict_list_after del: diceDict.simps)
  qed
qed

text \<open>
  The claim as first stated fails on \<^verbatim>\<open>[1, 2]\<close> when the shuffle draws 0: the caller's
  list is \<^verbatim>\<open>[2, 1]\<close> after the call.
\<close>

theorem diceDict_caller_list_counterexample:
  "fst (snd (diceDict [0] (ListA [IntE 1, IntE 2]))) = ListA [IntE 2, IntE 1] \<and>
   ListA [IntE 2, IntE 1] \<noteq> ListA [IntE 1, IntE 2]"
  by (simp add: shuffle_def mergeDiceDicts_def getitem_def get_default_def upto.simps)

theorem diceDict_caller_list_witness:
  "fst (snd (diceDict [0] (ListA [IntE 1, IntE 2]))) = ListA [IntE 2, IntE 1] \<and>
   fst (snd (diceDict [0] (ListA [IntE 1]))) = ListA [IntE 1]"
proof -
  have "fst (snd (diceDict [0] (ListA [IntE 1, IntE 2]))) = ListA [IntE 2, IntE 1]"
    by (simp add: shuffle_def mergeDiceDicts_def getitem_def get_default_def upto.simps)
  moreover have "fst (snd (diceDict [0] (ListA [IntE 1]))) = ListA [IntE 1]"
    using diceDict_caller_list[of "[0]" "[IntE 1]"] by auto
  ultimately show ?thesis by simp
qed

text \<open>
  C5, as amended. When the die-list evaluates to a total of 0 outcomes, \<^verbatim>\<open>diceProb\<close>
  raises no error: in either mode it returns the empty probability mapping. Nothing is
  divided by the total, since there is no outcome to give a probability to.
\<close>

theorem diceProb_zero_total:
  assumes "fst (diceDict r (ListA ds)) = Inr d" and "sum_list (map snd d) = 0"
  shows "diceProb fdiv r (ListA ds) exact = Inr []"
proof -
  have "wf_dict d" using diceDict_builds[of ds r] assms(1) by (simp add: builds_Inr)
  then have "d = []" using assms(2) by (rule wf_sum_zero)
  with assms(1) show ?thesis by (simp add: diceProb_def)
qed

text \<open>
  The claim as first stated fails on the empty die-list: \<^verbatim>\<open>diceProb([], exact=True)\<close>
  returns \<^verbatim>\<open>{}\<close>; so does \<^verbatim>\<open>diceProb([[]])\<close>.
\<close>

theorem diceProb_zero_total_counterexample:
  "diceProb (\<lambda>a b. real_of_int a / real_of_int b) [] (ListA []) True = Inr [] \<and>
   diceProb (\<lambda>a b. real_of_int a / real_of_int b) [] (ListA [ListE []]) False = Inr []"
  by (simp add: diceProb_def)

theorem diceProb_zero_total_witness:
  "fst (diceDict [] (ListA [ListE [], ListE []])) = Inr [] \<and>
   diceProb (\<lambda>a b. real_of_int a / real_of_int b) [] (ListA [ListE [], ListE []]) False = Inr []"
proof -
  have d: "fst (diceDict [] (ListA [ListE [], ListE []])) = Inr []"
    by (simp add: shuffle_def mergeDiceDicts_def)
  have s: "sum_list (map snd ([] :: dict)) = 0" by simp
  from diceProb_zero_total[OF d s] d show ?thesis by simp
qed

section \<open>Arguments and elements of the wrong shape\<close>

text \<open>
  C6, as amended. \<^verbatim>\<open>diceDict\<close> called on a bare integer, be it 0, -3 or positive, fails
  with the invalid-shape error of its first assertion, as it does on a string: it does
  not promote a bare integer to a one-element list. The promotion is done by
  \<^verbatim>\<open>diceProb\<close> and \<^verbatim>\<open>roll\<close>, which behave on \<open>n\<close> as on \<open>[n]\<close> and therefore fail with
  the nonpositive-sides error when \<open>n \<le> 0\<close>.
\<close>

theorem diceDict_bare_argument:
  "fst (diceDict r (IntA n)) = Inl (InvalidArgumentError ''diceDict'') \<and>
   fst (diceDict r (StrA s)) = Inl (InvalidArgumentError ''diceDict'') \<and>
   diceProb fdiv r (IntA n) exact = diceProb fdiv r (ListA [IntE n]) exact \<and>
   roll r (IntA n) = roll r (ListA [IntE n]) \<and>
   (n \<le> 0 \<longrightarrow> diceProb fdiv r (IntA n) exact = Inl InvalidDieError \<and>
              roll r (IntA n) = Inl InvalidDieError)"
  by (simp add: diceProb_def roll_def)

text \<open>
  The claim as first stated fails on 0 and on -3, where the error is the invalid-shape
  one and not the nonpositive-sides one, and on 6, which is rejected and not promoted.
\<close>

theorem diceDict_bare_argument_counterexample:
  "fst (diceDict [] (IntA 0)) = Inl (InvalidArgumentError ''diceDict'') \<and>
   fst (diceDict [] (IntA (- 3))) = Inl (InvalidArgumentError ''diceDict'') \<and>
   InvalidArgumentError ''diceDict'' \<noteq> InvalidDieError \<and>
   fst (diceDict [] (IntA 6)) \<noteq> fst (diceDict [] (ListA [IntE 6]))"
  by (simp add: InvalidArgumentError_def InvalidDieError_def)

theorem diceDict_bare_argument_witness:
  "fst (diceDict [] (IntA (- 3))) = Inl (InvalidArgumentError ''diceDict'') \<and>
   fst (diceDict [] (StrA ''abc'')) = Inl (InvalidArgumentError ''diceDict'') \<and>
   roll [] (IntA (- 3)) = Inl InvalidDieError \<and>
   diceProb (\<lambda>a b. real_of_int a / real_of_int b) [] (IntA (- 3)) True = Inl InvalidDieError"
proof -
  have n: "(- 3 :: int) \<le> 0" by simp
  from diceDict_bare_argument[of "[]" "- 3" "''abc''" "\<lambda>a b. real_of_int a / real_of_int b" True] n
  show ?thesis by blast
qed

text \<open>
  C7. The claim asks \<^verbatim>\<open>roll\<close> to fail on an element that is neither an int nor a list.
  The loop of \<^verbatim>\<open>roll\<close> has no branch for such an element and passes over it: on
  \<^verbatim>\<open>["abc", 6]\<close> it returns a roll of the six-sided die alone, and on \<^verbatim>\<open>["abc"]\<close> it
  returns 0, whereas \<^verbatim>\<open>diceDict\<close> raises on \<^verbatim>\<open>["abc"]\<close>.
\<close>

theorem roll_skips_invalid_element:
  "(\<exists>v. roll r (ListA [StrE ''abc'', IntE 6]) = Inr v \<and> 1 \<le> v \<and> v \<le> 6) \<and>
   roll r (ListA [StrE ''abc'']) = Inr 0 \<and>
   roll r (ListA (StrE s # ds)) = roll r (ListA ds) \<and>
   fst (diceDict r (ListA [StrE ''abc''])) = Inl TypeError"
proof -
  obtain j r' where j: "randbelow 6 r = (j, r')" by (cases "randbelow 6 r")
  then have "j < 6" by (cases r) auto
  with j show ?thesis by (simp add: roll_def)
qed

section \<open>Probabilities of a distribution\<close>

lemma dict_comp_map:
  "distinct xs \<Longrightarrow> set xs \<inter> fst ` set acc = {} \<Longrightarrow> (\<And>x. x \<in> set xs \<Longrightarrow> f x = Inr (g x)) \<Longrightarrow>
   dict_comp f xs acc = Inr (acc @ map (\<lambda>x. (x, g x)) xs)"
proof (induction xs arbitrary: acc)
  case Nil
  then show ?case by simp
next
  case (Cons x xs)
  have u: "AList.update x (g x) acc = acc @ [(x, g x)]"
    using Cons.prems(2) by (induction acc) auto
  have "set xs \<inter> fst ` set (acc @ [(x, g x)]) = {}"
    using Cons.prems(1,2) by auto
  moreover have "distinct xs" using Cons.prems(1) by simp
  ultimately have "dict_comp f xs (acc @ [(x, g x)]) = Inr ((acc @ [(x, g x)]) @ map (\<lambda>x. (x, g x)) xs)"
    using Cons.IH[of "acc @ [(x, g x)]"] Cons.prems(3) by simp
  then show ?case using Cons.prems(3)[of x] u by simp
qed

lemma getitem_key:
  "x \<in> fst ` set d \<Longrightarrow> getitem d x = Inr (get_default d x 0)"
  by (cases "map_of d x") (auto simp: getitem_def get_default_def map_of_eq_None_iff)

lemma distinct_sort_keys: "distinct (map fst d) \<Longrightarrow> distinct (sort (map fst d))"
  by simp

lemma sum_list_sort: "sum_list (map g (sort xs)) = sum_list (map g xs)" for g :: "int \<Rightarrow> 'b::comm_monoid_add"
proof -
  have "mset (map g (sort xs)) = mset (map g xs)" by simp
  then have "sum_mset (mset (map g (sort xs))) = sum_mset (mset (map g xs))" by (rule arg_cong)
  then show ?thesis by (simp only: sum_mset_sum_list)
qed

lemma sum_get_default_keys:
  "distinct (map fst d) \<Longrightarrow> sum_list (map (\<lambda>x. get_default d x 0) (map fst d)) = sum_list (map snd d)"
proof -
  assume dd: "distinct (map fst d)"
  have "get_default d (fst p) 0 = snd p" if "p \<in> set d" for p
  proof -
    have "map_of d (fst p) = Some (snd p)" using that dd by simp
    then show ?thesis by (simp add: get_default_def)
  qed
  then have "map (\<lambda>x. get_default d x 0) (map fst d) = map snd d"
    by (simp add: comp_def cong: map_cong)
  then show ?thesis by (simp only:)
qed

lemma sum_Fract:
  "s \<noteq> 0 \<Longrightarrow> sum_list (map (\<lambda>x. Fract (c x) s) xs) = Fract (sum_list (map c xs)) s"
  by (induction xs) (simp_all add: rat_number_collapse Fract_of_int_quotient add_divide_distrib)

lemma wf_sum_positive: "wf_dict d \<Longrightarrow> d \<noteq> [] \<Longrightarrow> 0 < sum_list (map snd d)"
proof -
  assume w: "wf_dict d" and ne: "d \<noteq> []"
  have "sum_list (map snd d) = int (size (outcomes d))"
    using w sum_values_outcomes[of d] by (simp add: wf_dict_def positive_nonneg)
  moreover have "outcomes d \<noteq> {#}" using w ne by (simp add: outcomes_eq_empty_iff wf_dict_def)
  ultimately show ?thesis by (simp add: nonempty_has_size)
qed

lemma map_of_map_keys:
  "map_of (map (\<lambda>x. (x, g x)) xs) k = (if k \<in> set xs then Some (g k) else None)"
  by (induction xs) simp_all

lemma dict_comp_probs:
  assumes "distinct ks" and "set ks = fst ` set d" and "\<And>c. d \<noteq> [] \<Longrightarrow> f c = Inr (g c)"
  shows "dict_comp (\<lambda>x. case getitem d x of Inl e \<Rightarrow> Inl e | Inr c \<Rightarrow> f c) ks [] =
         Inr (map (\<lambda>x. (x, g (get_default d x 0))) ks)"
proof -
  have "(case getitem d x of Inl e \<Rightarrow> Inl e | Inr c \<Rightarrow> f c) = Inr (g (get_default d x 0))"
    if "x \<in> set ks" for x
  proof -
    have "x \<in> fst ` set d" using that assms(2) by simp
    moreover from this have "d \<noteq> []" by auto
    ultimately show ?thesis using assms(3) by (simp add: getitem_key)
  qed
  then show ?thesis
    using dict_comp_map[of ks "[]" _ "\<lambda>x. g (get_default d x 0)"] assms(1) by simp
qed

lemma diceDict_wf: "fst (diceDict r (ListA ds)) = Inr d \<Longrightarrow> wf_dict d"
  using diceDict_builds[of ds r] by (simp add: builds_Inr)

lemma diceProb_values_exact:
  assumes "fst (diceDict r (ListA ds)) = Inr d"
  shows "diceProb fdiv r (ListA ds) True =
         Inr (map (\<lambda>x. (x, PFraction (Fract (get_default d x 0) (sum_list (map snd d)))))
                (sort (map fst d)))"
proof -
  have w: "wf_dict d" using assms by (rule diceDict_wf)
  have "dict_comp (\<lambda>x. case getitem d x of Inl e \<Rightarrow> Inl e
                        | Inr c \<Rightarrow> (Fraction c (sum_list (map snd d)) :: error + 'a pynum))
          (sort (map fst d)) [] =
        Inr (map (\<lambda>x. (x, PFraction (Fract (get_default d x 0) (sum_list (map snd d)))))
               (sort (map fst d)))"
  proof (rule dict_comp_probs)
    show "distinct (sort (map fst d))" using w by (simp add: wf_dict_def)
    show "set (sort (map fst d)) = fst ` set d" by simp
    show "(Fraction c (sum_list (map snd d)) :: error + 'a pynum) =
          Inr (PFraction (Fract c (sum_list (map snd d))))" if "d \<noteq> []" for c
      using wf_sum_positive[OF w that] by (simp add: Fraction_def)
  qed
  with assms show ?thesis by (simp add: diceProb_def)
qed

lemma diceProb_values_float:
  assumes "fst (diceDict r (ListA ds)) = Inr d"
  shows "diceProb fdiv r (ListA ds) False =
         Inr (map (\<lambda>x. (x, PFloat (fdiv (get_default d x 0) (sum_list (map snd d)))))
                (sort (map fst d)))"
proof -
  have w: "wf_dict d" using assms by (rule diceDict_wf)
  have "dict_comp (\<lambda>x. case getitem d x of Inl e \<Rightarrow> Inl e
                        | Inr c \<Rightarrow> truediv fdiv c (sum_list (map snd d)))
          (sort (map fst d)) [] =
        Inr (map (\<lambda>x. (x, PFloat (fdiv (get_default d x 0) (sum_list (map snd d)))))
               (sort (map fst d)))"
  proof (rule dict_comp_probs)
    show "distinct (sort (map fst d))" using w by (simp add: wf_dict_def)
    show "set (sort (map fst d)) = fst ` set d" by simp
    show "truediv fdiv c (sum_list (map snd d)) = Inr (PFloat (fdiv c (sum_list (map snd d))))"
      if "d \<noteq> []" for c
      using wf_sum_positive[OF w that] by (simp add: truediv_def)
  qed
  with assms show ?thesis by (simp add: diceProb_def)
qed

lemma diceProb_values_old:
  assumes "fst (diceDict_old r (ListA ds)) = Inr d"
  shows "diceProb_old fdiv r (ListA ds) =
         Inr (map (\<lambda>x. (x, PFloat (fdiv (get_default d x 0) (sum_list (map snd d)))))
                (map fst d))"
proof -
  have w: "wf_dict d" using diceDict_old_builds[of ds r] assms by (simp add: builds_Inr)
  have "dict_comp (\<lambda>x. case getitem d x of Inl e \<Rightarrow> Inl e
                        | Inr c \<Rightarrow> truediv fdiv c (sum_list (map snd d)))
          (map fst d) [] =
        Inr (map (\<lambda>x. (x, PFloat (fdiv (get_default d x 0) (sum_list (map snd d)))))
               (map fst d))"
  proof (rule dict_comp_probs)
    show "distinct (map fst d)" using w by (simp add: wf_dict_def)
    show "set (map fst d) = fst ` set d" by simp
    show "truediv fdiv c (sum_list (map snd d)) = Inr (PFloat (fdiv c (sum_list (map snd d))))"
      if "d \<noteq> []" for c
      using wf_sum_positive[OF w that] by (simp add: truediv_def)
  qed
  with assms show ?thesis by (simp add: diceProb_old_def)
qed

text \<open>
  C8. For every die-list that \<^verbatim>\<open>diceDict\<close> accepts with at least one outcome, \<^verbatim>\<open>diceProb\<close>
  with \<^verbatim>\<open>exact=True\<close> returns a mapping whose keys are the outcomes in ascending order,
  in which an outcome of count \<open>c\<close> has the rational value \<open>c / S\<close>, \<open>S\<close> being the sum of
  all counts; this value is the reduced fraction, and the returned values sum to exactly 1.
\<close>

theorem diceProb_exact:
  assumes "fst (diceDict r (ListA ds)) = Inr d" and "d \<noteq> []"
  shows "\<exists>ps. diceProb fdiv r (ListA ds) True = Inr ps \<and>
              map fst ps = sort (map fst d) \<and>
              (\<forall>x c. map_of d x = Some c \<longrightarrow>
                 map_of ps x = Some (PFraction (Fract c (sum_list (map snd d)))) \<and>
                 Fract c (sum_list (map snd d)) =
                   Fract (c div gcd c (sum_list (map snd d)))
                     (sum_list (map snd d) div gcd c (sum_list (map snd d)))) \<and>
              (\<exists>qs. map snd ps = map PFraction qs \<and> sum_list qs = 1)"
proof -
  let ?S = "sum_list (map snd d)"
  let ?q = "\<lambda>x. Fract (get_default d x 0) ?S"
  let ?ps = "map (\<lambda>x. (x, PFraction (?q x) :: 'a pynum)) (sort (map fst d))"
  have w: "wf_dict d" using assms(1) by (rule diceDict_wf)
  have S: "0 < ?S" using w assms(2) by (rule wf_sum_positive)
  have p: "diceProb fdiv r (ListA ds) True = Inr ?ps"
    using assms(1) by (rule diceProb_values_exact)
  have k: "map fst ?ps = sort (map fst d)" by (simp add: comp_def)
  have m: "map_of ?ps x = Some (PFraction (Fract c ?S))" if "map_of d x = Some c" for x c
  proof -
    have "x \<in> fst ` set d" using that by (auto dest: map_of_SomeD intro: rev_image_eqI)
    then show ?thesis using that by (simp add: map_of_map_keys get_default_def)
  qed
  have g: "Fract c ?S = Fract (c div gcd c ?S) (?S div gcd c ?S)" for c
    by (simp add: Fract_coprime)
  have "sum_list (map ?q (sort (map fst d))) = sum_list (map ?q (map fst d))"
    by (rule sum_list_sort)
  also have "\<dots> = Fract (sum_list (map (\<lambda>x. get_default d x 0) (map fst d))) ?S"
    by (rule sum_Fract) (use S in simp)
  also have "\<dots> = Fract ?S ?S"
    using w by (simp only: sum_get_default_keys wf_dict_def)
  also have "\<dots> = 1" using S by (simp add: Fract_of_int_quotient)
  finally have s: "sum_list (map ?q (sort (map fst d))) = 1" .
  have "map snd ?ps = map PFraction (map ?q (sort (map fst d)))" by (simp add: comp_def)
  with s have "\<exists>qs. map snd ?ps = map PFraction qs \<and> sum_list qs = 1" by blast
  with p k m g show ?thesis by blast
qed

theorem diceProb_exact_witness:
  "diceProb (\<lambda>a b. real_of_int a / real_of_int b) [] (ListA [IntE 2, IntE 2]) True =
     Inr [(2, PFraction (Fract 1 4)), (3, PFraction (Fract 2 4)), (4, PFraction (Fract 1 4))] \<and>
   Fract 2 4 = Fract 1 2 \<and> Fract 1 4 + Fract 2 4 + Fract 1 4 = 1"
proof -
  have d: "fst (diceDict [] (ListA [IntE 2, IntE 2])) = Inr [(2, 1), (3, 2), (4, 1)]"
    by code_simp
  have ne: "[(2, 1), (3, 2), (4, 1)] \<noteq> ([] :: dict)" by simp
  from diceProb_exact[OF d ne, of "\<lambda>a b. real_of_int a / real_of_int b"]
  obtain ps where ps: "diceProb (\<lambda>a b. real_of_int a / real_of_int b) [] (ListA [IntE 2, IntE 2]) True = Inr ps"
    by blast
  have v: "diceProb (\<lambda>a b. real_of_int a / real_of_int b) [] (ListA [IntE 2, IntE 2]) True =
     Inr [(2, PFraction (Fract 1 4)), (3, PFraction (Fract 2 4)), (4, PFraction (Fract 1 4))]"
    using d by (simp add: diceProb_def getitem_def Fraction_def)
  have "Fract 2 4 = Fract 1 2" by (simp add: eq_rat)
  moreover have "Fract 1 4 + Fract 2 4 + Fract 1 4 = 1" by (simp add: Fract_of_int_quotient)
  ultimately show ?thesis using v ps by simp
qed

lemma get_default_map_of: "map_of d = map_of d' \<Longrightarrow> get_default d x dflt = get_default d' x dflt"
  by (simp add: get_default_def)

lemma keys_map_of: "map_of d = map_of d' \<Longrightarrow> fst ` set d = fst ` set d'"
  by (metis dom_map_of_conv_image_fst)

text \<open>
  C9. For every valid die-list, \<^verbatim>\<open>diceProb\<close> of the older \<^verbatim>\<open>src/dice/dice.py\<close> and
  \<^verbatim>\<open>diceProb\<close> of \<^verbatim>\<open>src/dice.py\<close> called with \<^verbatim>\<open>exact=False\<close> both return, and return
  equal mappings: the same keys, each with the same float, whatever the shuffles of the
  two runs draw. The float of a key is the quotient \<open>fdiv\<close> of the same two ints in both.
\<close>

theorem diceProb_old_new_agree:
  assumes "list_all valid_die ds"
  shows "\<exists>ps ps'. diceProb_old fdiv r' (ListA ds) = Inr ps' \<and>
                  diceProb fdiv r (ListA ds) False = Inr ps \<and>
                  map_of ps' = map_of ps \<and> fst ` set ps' = fst ` set ps"
proof -
  obtain d where d: "fst (diceDict r (ListA ds)) = Inr d" "wf_dict d" "outcomes d = all_outcomes ds"
    using builds_Inr_ex[OF assms diceDict_builds[of ds r]] by blast
  obtain d' where d': "fst (diceDict_old r' (ListA ds)) = Inr d'" "wf_dict d'"
      "outcomes d' = all_outcomes ds"
    using builds_Inr_ex[OF assms diceDict_old_builds[of ds r']] by blast
  let ?ps = "map (\<lambda>x. (x, PFloat (fdiv (get_default d x 0) (sum_list (map snd d)))))
               (sort (map fst d))"
  let ?ps' = "map (\<lambda>x. (x, PFloat (fdiv (get_default d' x 0) (sum_list (map snd d')))))
               (map fst d')"
  have m: "map_of d' = map_of d"
    by (rule map_of_eq_outcomes[OF d'(2) d(2)]) (simp add: d(3) d'(3))
  have k: "fst ` set d' = fst ` set d" using m by (rule keys_map_of)
  have s: "sum_list (map snd d') = sum_list (map snd d)"
    using d(2,3) d'(2,3) sum_values_outcomes[of d] sum_values_outcomes[of d']
    by (simp add: wf_dict_def positive_nonneg)
  have g: "get_default d' x 0 = get_default d x 0" for x
    using m by (rule get_default_map_of)
  have "map_of ?ps' x = map_of ?ps x" for x
    unfolding map_of_map_keys using k by (simp add: s g)
  then have "map_of ?ps' = map_of ?ps" by (rule ext)
  moreover have "fst ` set ?ps' = fst ` set ?ps"
    using k by (simp add: image_comp comp_def)
  moreover have "diceProb_old fdiv r' (ListA ds) = Inr ?ps'"
    using d'(1) by (rule diceProb_values_old)
  moreover have "diceProb fdiv r (ListA ds) False = Inr ?ps"
    using d(1) by (rule diceProb_values_float)
  ultimately show ?thesis by blast
qed

theorem diceProb_old_new_agree_witness:
  "diceProb_old (\<lambda>a b. real_of_int a / real_of_int b) [1] (ListA [ListE [3, 0], IntE 1]) =
     Inr [(4, PFloat (1 / 2)), (1, PFloat (1 / 2))] \<and>
   diceProb (\<lambda>a b. real_of_int a / real_of_int b) [0] (ListA [ListE [3, 0], IntE 1]) False =
     Inr [(1, PFloat (1 / 2)), (4, PFloat (1 / 2))] \<and>
   map_of [(4, PFloat (1 / 2 :: real)), (1 :: int, PFloat (1 / 2))] =
   map_of [(1, PFloat (1 / 2)), (4, PFloat (1 / 2))]"
proof -
  have v: "list_all valid_die [ListE [3, 0], IntE 1]" by simp
  have o: "fst (diceDict_old [1] (ListA [ListE [3, 0], IntE 1])) = Inr [(4, 1), (1, 1)]"
    by code_simp
  have n: "fst (diceDict [0] (ListA [ListE [3, 0], IntE 1])) = Inr [(1, 1), (4, 1)]"
    by code_simp
  have a: "diceProb_old (\<lambda>a b. real_of_int a / real_of_int b) [1] (ListA [ListE [3, 0], IntE 1]) =
     Inr [(4, PFloat (1 / 2)), (1, PFloat (1 / 2))]"
    using o by (simp add: diceProb_old_def getitem_def truediv_def)
  have b: "diceProb (\<lambda>a b. real_of_int a / real_of_int b) [0] (ListA [ListE [3, 0], IntE 1]) False =
     Inr [(1, PFloat (1 / 2)), (4, PFloat (1 / 2))]"
    using n by (simp add: diceProb_def getitem_def truediv_def)
  from diceProb_old_new_agree[OF v, of "\<lambda>a b. real_of_int a / real_of_int b" "[1]" "[0]"]
  show ?thesis using a b by auto
qed

section \<open>A die without faces\<close>





end
